theory Spec2Isabelle
  imports Complex_Main "HOL-Library.Log_Nat"
begin

section \<open>Python values shared by both modules\<close>

text \<open>
  Exceptions are values: a function that can raise returns \<open>py_error + 'a\<close>, with
  \<open>Inl\<close> the exception that escapes to the caller.
\<close>

datatype py_error =
    AttributeError | TypeError | ValueError | OverflowError
  | KeyError | IndexError | JSONDecodeError | RecursionError | OSError
  | OutOfBoundsDatetime

text \<open>
  A Python \<open>float\<close> is an IEEE 754 double. A finite double is represented by its exact
  rational value; the two zeros are identified. \<open>NaN\<close> is the "not-a-number" sentinel
  (\<open>np.nan\<close>).
\<close>

datatype pyfloat = Fin rat | PInf | NInf | NaN

text \<open>
  Text is a list of code points below 256. \<open>isspace\<close> is \<open>str.isspace\<close> on one such
  code point, and \<open>py_strip\<close> is \<open>str.strip()\<close> without arguments.
\<close>

definition isspace :: "char \<Rightarrow> bool" where
  "isspace c = (of_char c \<in> {9, 10, 11, 12, 13, 28, 29, 30, 31, 32, 133, 160 :: nat})"

definition py_strip :: "string \<Rightarrow> string" where
  "py_strip s = rev (dropWhile isspace (rev (dropWhile isspace s)))"

subsection \<open>Floats from text\<close>

text \<open>
  Rounding a rational to the nearest double, ties to even. \<open>floor_log2 q\<close> is the
  exponent \<open>e\<close> with \<open>2^e \<le> q < 2^(e+1)\<close> for positive \<open>q\<close>; below \<open>2^-1022\<close> the spacing
  of doubles stays \<open>2^-1074\<close>; a result of \<open>2^1024\<close> or more is an infinity.
\<close>

definition pow2 :: "int \<Rightarrow> rat" where
  "pow2 e = (if 0 \<le> e then 2 ^ nat e else 1 / 2 ^ nat (- e))"

definition pow10 :: "int \<Rightarrow> rat" where
  "pow10 e = (if 0 \<le> e then 10 ^ nat e else 1 / 10 ^ nat (- e))"

definition floor_log2 :: "rat \<Rightarrow> int" where
  "floor_log2 q = (if 1 \<le> q then bitlen \<lfloor>q\<rfloor> - 1 else - bitlen (\<lceil>1 / q\<rceil> - 1))"

definition round_half_even :: "rat \<Rightarrow> int" where
  "round_half_even q =
     (let f = \<lfloor>q\<rfloor>; r = q - of_int f
      in if r < 1 / 2 then f else if 1 / 2 < r then f + 1 else if even f then f else f + 1)"

definition round_double :: "rat \<Rightarrow> pyfloat" where
  "round_double q =
     (if q = 0 then Fin 0
      else let a = \<bar>q\<bar>;
               e = max (floor_log2 a) (- 1022);
               ulp = pow2 (e - 52);
               r = of_int (round_half_even (a / ulp)) * ulp
           in if pow2 1024 \<le> r then (if 0 < q then PInf else NInf)
              else Fin (if 0 < q then r else - r))"

text \<open>
  \<open>float(s)\<close> on text: surrounding whitespace is dropped (see \<open>float_strip\<close>); an underscore is allowed only
  between two digits; then an optional sign and either \<open>inf\<close>, \<open>infinity\<close> or \<open>nan\<close> in
  any case, or a decimal numeral (digits with an optional point, at least one digit, and
  an optional exponent), whose value is rounded to the nearest double. \<open>None\<close> stands
  for \<open>ValueError\<close>.
\<close>

definition is_digit :: "char \<Rightarrow> bool" where
  "is_digit c = (48 \<le> (of_char c :: nat) \<and> (of_char c :: nat) \<le> 57)"

definition digit_val :: "char \<Rightarrow> nat" where
  "digit_val c = of_char c - 48"

definition digits_val :: "string \<Rightarrow> nat" where
  "digits_val ds = foldl (\<lambda>n c. 10 * n + digit_val c) 0 ds"

text \<open>
  \<open>ascii_lower\<close> is the case folding \<open>float\<close> uses for \<open>inf\<close> and \<open>nan\<close>; \<open>py_lower\<close> is
  \<open>str.lower()\<close> on code points below 256.
\<close>

definition ascii_lower :: "string \<Rightarrow> string" where
  "ascii_lower s = map (\<lambda>c. if 65 \<le> (of_char c :: nat) \<and> (of_char c :: nat) \<le> 90
                            then char_of (of_char c + 32 :: nat) else c) s"

definition py_lower :: "string \<Rightarrow> string" where
  "py_lower s = map (\<lambda>c. let n = (of_char c :: nat)
                         in if (65 \<le> n \<and> n \<le> 90) \<or> (192 \<le> n \<and> n \<le> 222 \<and> n \<noteq> 215)
                            then char_of (n + 32) else c) s"

fun strip_underscores :: "char \<Rightarrow> string \<Rightarrow> string option" where
  "strip_underscores prev [] = (if prev = CHR ''_'' then None else Some [])"
| "strip_underscores prev (c # cs) =
     (if c = CHR ''_''
      then (if is_digit prev then strip_underscores c cs else None)
      else if prev = CHR ''_'' \<and> \<not> is_digit c then None
      else map_option ((#) c) (strip_underscores c cs))"

definition parse_exponent :: "string \<Rightarrow> int option" where
  "parse_exponent s =
     (let (neg, t) = (case s of
                        c # r \<Rightarrow> if c = CHR ''-'' then (True, r)
                                 else if c = CHR ''+'' then (False, r) else (False, s)
                      | [] \<Rightarrow> (False, s))
      in if t = [] \<or> \<not> list_all is_digit t then None
         else Some (if neg then - int (digits_val t) else int (digits_val t)))"

definition parse_decimal :: "string \<Rightarrow> rat option" where
  "parse_decimal s =
     (let ip = takeWhile is_digit s;
          r1 = dropWhile is_digit s;
          (fp, r2) = (case r1 of
                        c # t \<Rightarrow> if c = CHR ''.'' then (takeWhile is_digit t, dropWhile is_digit t)
                                 else ([], r1)
                      | [] \<Rightarrow> ([], r1));
          m = of_nat (digits_val (ip @ fp))
      in if ip = [] \<and> fp = [] then None
         else case r2 of
                [] \<Rightarrow> Some (m * pow10 (- int (length fp)))
              | c # t \<Rightarrow>
                  if c = CHR ''e'' \<or> c = CHR ''E''
                  then map_option (\<lambda>x. m * pow10 (x - int (length fp))) (parse_exponent t)
                  else None)"

text \<open>
  \<open>float\<close> drops fewer characters than \<open>str.strip\<close>: code points above 127 that are
  whitespace (133 and 160) are first turned into spaces, and then only the ASCII
  whitespace 9 to 13 and 32 is dropped at both ends; 28 to 31 stay and make the
  conversion fail.
\<close>

definition is_float_space :: "char \<Rightarrow> bool" where
  "is_float_space c = (of_char c \<in> {9, 10, 11, 12, 13, 32, 133, 160 :: nat})"

definition float_strip :: "string \<Rightarrow> string" where
  "float_strip s = rev (dropWhile is_float_space (rev (dropWhile is_float_space s)))"

definition float_of_string :: "string \<Rightarrow> pyfloat option" where
  "float_of_string s =
     (case strip_underscores (CHR 0x00) (float_strip s) of
        None \<Rightarrow> None
      | Some u \<Rightarrow>
          (let (neg, body) = (case u of
                                c # r \<Rightarrow> if c = CHR ''-'' then (True, r)
                                         else if c = CHR ''+'' then (False, r) else (False, u)
                              | [] \<Rightarrow> (False, u))
           in if ascii_lower body = ''inf'' \<or> ascii_lower body = ''infinity''
              then Some (if neg then NInf else PInf)
              else if ascii_lower body = ''nan'' then Some NaN
              else map_option (\<lambda>q. round_double (if neg then - q else q)) (parse_decimal body)))"

text \<open>Addition of doubles, and division of a double by \<open>2.0\<close>.\<close>

fun fadd :: "pyfloat \<Rightarrow> pyfloat \<Rightarrow> pyfloat" where
  "fadd NaN y = NaN"
| "fadd x NaN = NaN"
| "fadd PInf NInf = NaN"
| "fadd NInf PInf = NaN"
| "fadd PInf y = PInf"
| "fadd x PInf = PInf"
| "fadd NInf y = NInf"
| "fadd x NInf = NInf"
| "fadd (Fin a) (Fin b) = round_double (a + b)"

fun fhalf :: "pyfloat \<Rightarrow> pyfloat" where
  "fhalf (Fin a) = round_double (a / 2)"
| "fhalf x = x"

text \<open>
  \<open>s.split(sep, 1)\<close>: the text before and after the first occurrence of \<open>sep\<close>, or
  \<open>None\<close> when \<open>sep\<close> does not occur (the result then has one part); \<open>sub in s\<close>;
  \<open>s.replace(",", "")\<close>.
\<close>

fun split_once :: "string \<Rightarrow> string \<Rightarrow> (string \<times> string) option" where
  "split_once sep [] = (if sep = [] then Some ([], []) else None)"
| "split_once sep (c # cs) =
     (if take (length sep) (c # cs) = sep then Some ([], drop (length sep) (c # cs))
      else map_option (\<lambda>(a, b). (c # a, b)) (split_once sep cs))"

definition contains :: "string \<Rightarrow> string \<Rightarrow> bool" where
  "contains sub s = (split_once sub s \<noteq> None)"

definition remove_commas :: "string \<Rightarrow> string" where
  "remove_commas s = filter (\<lambda>c. c \<noteq> CHR '','') s"

text \<open>\<open>str\<close> of an integer.\<close>

function digits_of_nat :: "nat \<Rightarrow> string" where
  "digits_of_nat n =
     (if n < 10 then [char_of (48 + n)]
      else digits_of_nat (n div 10) @ [char_of (48 + n mod 10)])"
  by pat_completeness auto
termination
  by (relation "measure id") auto

declare digits_of_nat.simps [simp del]

definition str_of_int :: "int \<Rightarrow> string" where
  "str_of_int i = (if i < 0 then CHR ''-'' # digits_of_nat (nat (- i)) else digits_of_nat (nat i))"

section \<open>helper_functions_for_forecasting.py\<close>

subsection \<open>parse_employee_range_to_midpoint\<close>

text \<open>
  The argument is missing (\<open>None\<close>, \<open>pd.NA\<close>), text, an integer or a float.
  \<open>float_str\<close> stands for \<open>str\<close> of a float, which is not modelled.
\<close>

datatype range_val = Missing | Text string | IntNum int | FloatNum pyfloat

fun isna :: "range_val \<Rightarrow> bool" where
  "isna Missing = True"
| "isna (FloatNum NaN) = True"
| "isna v = False"

fun py_str :: "(pyfloat \<Rightarrow> string) \<Rightarrow> range_val \<Rightarrow> string" where
  "py_str float_str (Text s) = s"
| "py_str float_str (IntNum i) = str_of_int i"
| "py_str float_str (FloatNum f) = float_str f"
| "py_str float_str Missing = ''None''"

text \<open>
  The body of the two range rules: both parts are stripped and converted, and the mean
  \<open>(lo + hi) / 2.0\<close> is returned; \<open>None\<close> when a conversion raises (the \<open>except\<close> branch
  that passes on to the next rule).
\<close>

definition mean_of :: "string \<Rightarrow> string \<Rightarrow> pyfloat option" where
  "mean_of a b =
     (case float_of_string (py_strip a) of
        None \<Rightarrow> None
      | Some lo \<Rightarrow> (case float_of_string (py_strip b) of
                      None \<Rightarrow> None
                    | Some hi \<Rightarrow> Some (fhalf (fadd lo hi))))"

text \<open>
  The four rules in the order of the source: \<open>"1000+"\<close>, \<open>"51-200"\<close>, \<open>"26 to 50"\<close>, and a
  single number. The first and the last return the sentinel when the conversion raises;
  the two range rules return \<open>None\<close> when they do not apply or fail.
\<close>

definition plus_rule :: "string \<Rightarrow> pyfloat" where
  "plus_rule s =
     (case float_of_string (py_strip (remove_commas (butlast s))) of
        Some f \<Rightarrow> f
      | None \<Rightarrow> NaN)"

definition dash_rule :: "string \<Rightarrow> pyfloat option" where
  "dash_rule s =
     (if CHR ''-'' \<in> set s
      then (case split_once ''-'' (remove_commas s) of
              Some (a, b) \<Rightarrow> mean_of a b
            | None \<Rightarrow> None)
      else None)"

definition to_rule :: "string \<Rightarrow> pyfloat option" where
  "to_rule s =
     (if contains '' to '' (py_lower s)
      then (case split_once '' to '' (remove_commas s) of
              Some (a, b) \<Rightarrow> mean_of a b
            | None \<Rightarrow> None)
      else None)"

definition single_rule :: "string \<Rightarrow> pyfloat" where
  "single_rule s =
     (case float_of_string (remove_commas s) of
        Some f \<Rightarrow> f
      | None \<Rightarrow> NaN)"

definition parse_employee_range_to_midpoint :: "(pyfloat \<Rightarrow> string) \<Rightarrow> range_val \<Rightarrow> pyfloat" where
  "parse_employee_range_to_midpoint float_str val =
     (if isna val then NaN
      else let s = py_strip (py_str float_str val)
           in if s = [] then NaN
              else if last s = CHR ''+'' then plus_rule s
              else (case dash_rule s of
                      Some r \<Rightarrow> r
                    | None \<Rightarrow> (case to_rule s of
                                 Some r \<Rightarrow> r
                               | None \<Rightarrow> single_rule s)))"

subsection \<open>Timestamps\<close>

text \<open>
  A \<open>pd.Timestamp\<close> is a signed 64-bit count of nanoseconds since 1970-01-01T00:00 (a
  Thursday), from \<open>ts_min\<close> to \<open>ts_max\<close> (1677-09-21 to 2262-04-11); a \<open>Timedelta\<close> has the
  same range. Arithmetic whose result leaves that range raises \<open>OutOfBoundsDatetime\<close>:
  \<open>checked\<close> is that test. \<open>Timedelta.days\<close> is the floor of the difference in days,
  \<open>Timestamp.normalize()\<close> drops the time of day, and \<open>Timestamp.weekday()\<close> counts Monday
  as 0 and Sunday as 6.
\<close>

type_synonym timestamp = int

definition ns_per_day :: int where
  "ns_per_day = 86400000000000"

definition ts_min :: int where
  "ts_min = - 9223372036854775807"

definition ts_max :: int where
  "ts_max = 9223372036854775807"

definition in_bounds :: "int \<Rightarrow> bool" where
  "in_bounds v = (ts_min \<le> v \<and> v \<le> ts_max)"

definition checked :: "int \<Rightarrow> py_error + int" where
  "checked v = (if in_bounds v then Inr v else Inl OutOfBoundsDatetime)"

definition timedelta_days :: "int \<Rightarrow> int" where
  "timedelta_days td = td div ns_per_day"

definition ts_normalize :: "timestamp \<Rightarrow> py_error + timestamp" where
  "ts_normalize t = checked (t - t mod ns_per_day)"

definition weekday :: "timestamp \<Rightarrow> int" where
  "weekday t = (t div ns_per_day + 3) mod 7"

subsection \<open>make_sunday_index\<close>

text \<open>
  \<open>pd.date_range(start, end, freq="W-SUN")\<close>: the offset is a week anchored on
  weekday 6. A start that is not on the offset is rolled forward to the next Sunday
  (keeping its time of day). If \<open>end\<close> is before the rolled start, \<open>end\<close> is replaced by
  the start minus one week, so that nothing is generated. The generator then yields the
  current value while it is not after \<open>end\<close>, stops after yielding \<open>end\<close> itself, and
  otherwise adds one week before it compares again. The roll-forward, the subtraction and
  every addition raise when their result is out of range.
\<close>

definition is_on_offset :: "timestamp \<Rightarrow> bool" where
  "is_on_offset t = (weekday t = 6)"

definition rollforward :: "timestamp \<Rightarrow> py_error + timestamp" where
  "rollforward t =
     (if is_on_offset t then Inr t else checked (t + ((6 - weekday t) mod 7) * ns_per_day))"

function generate_range :: "timestamp \<Rightarrow> timestamp \<Rightarrow> py_error + timestamp list" where
  "generate_range cur stop =
     (if cur \<le> stop
      then (if cur = stop then Inr [cur]
            else (case checked (cur + 7 * ns_per_day) of
                    Inl e \<Rightarrow> Inl e
                  | Inr nxt \<Rightarrow> (case generate_range nxt stop of
                                 Inl e \<Rightarrow> Inl e
                               | Inr xs \<Rightarrow> Inr (cur # xs))))
      else Inr [])"
  by pat_completeness auto
termination
  by (relation "measure (\<lambda>(cur, stop). nat (stop - cur))")
    (auto simp: checked_def ns_per_day_def split: if_splits)

declare generate_range.simps [simp del]

definition date_range_W_SUN :: "timestamp \<Rightarrow> timestamp \<Rightarrow> py_error + timestamp list" where
  "date_range_W_SUN start stop =
     (case rollforward start of
        Inl e \<Rightarrow> Inl e
      | Inr start' \<Rightarrow>
          if stop < start'
          then (case checked (start' - 7 * ns_per_day) of
                  Inl e \<Rightarrow> Inl e
                | Inr stop' \<Rightarrow> generate_range start' stop')
          else generate_range start' stop)"

definition make_sunday_index :: "timestamp \<Rightarrow> timestamp \<Rightarrow> py_error + timestamp list" where
  "make_sunday_index start stop =
     (case ts_normalize start of
        Inl e \<Rightarrow> Inl e
      | Inr start' \<Rightarrow> (case ts_normalize stop of
                        Inl e \<Rightarrow> Inl e
                      | Inr stop' \<Rightarrow> date_range_W_SUN start' stop'))"

text \<open>
  For the statements and proofs: the midnight of a timestamp's day, a Sunday at midnight,
  timestamps at least eight days inside the representable range, and the roll-forward and the
  generator as plain arithmetic without the range test.
\<close>

definition midnight :: "timestamp \<Rightarrow> timestamp" where
  "midnight t = t - t mod ns_per_day"

definition is_sunday_midnight :: "timestamp \<Rightarrow> bool" where
  "is_sunday_midnight t = (t mod ns_per_day = 0 \<and> weekday t = 6)"

definition well_inside :: "timestamp \<Rightarrow> bool" where
  "well_inside t = (ts_min + 8 * ns_per_day \<le> t \<and> t + 8 * ns_per_day \<le> ts_max)"

definition next_sunday :: "timestamp \<Rightarrow> timestamp" where
  "next_sunday t =
     (if is_on_offset t then t else t + ((6 - weekday t) mod 7) * ns_per_day)"

function weeks_from :: "timestamp \<Rightarrow> timestamp \<Rightarrow> timestamp list" where
  "weeks_from cur stop =
     (if cur \<le> stop
      then cur # (if cur = stop then [] else weeks_from (cur + 7 * ns_per_day) stop)
      else [])"
  by pat_completeness auto
termination
  by (relation "measure (\<lambda>(cur, stop). nat (stop - cur))") (auto simp: ns_per_day_def)

declare weeks_from.simps [simp del]

subsection \<open>days_since_last_activity\<close>

text \<open>
  \<open>max(prior)\<close> on a non-empty list: the running maximum is replaced only by a
  strictly greater element.
\<close>

fun py_max :: "int \<Rightarrow> int list \<Rightarrow> int" where
  "py_max m [] = m"
| "py_max m (d # ds) = py_max (if m < d then d else m) ds"

text \<open>
  \<open>last_active\<close> is a dict from entity identifiers to lists of timestamps;
  \<open>last_active.get(company_id, [])\<close> is the empty list for a missing key. The difference
  \<open>snapshot_date - max(prior)\<close> is a \<open>Timedelta\<close> and raises when it is out of range. The
  day count of a \<open>Timedelta\<close> is far below \<open>2^53\<close>, so \<open>float\<close> of it is exact.
\<close>

definition days_since_last_activity ::
  "'k \<Rightarrow> timestamp \<Rightarrow> ('k \<rightharpoonup> timestamp list) \<Rightarrow> py_error + pyfloat" where
  "days_since_last_activity company_id snapshot_date last_active =
     (let dates = (case last_active company_id of None \<Rightarrow> [] | Some ds \<Rightarrow> ds);
          prior = filter (\<lambda>d. d \<le> snapshot_date) dates
      in case prior of
           [] \<Rightarrow> Inr NaN
         | p # ps \<Rightarrow>
             (case checked (snapshot_date - py_max p ps) of
                Inl e \<Rightarrow> Inl e
              | Inr td \<Rightarrow> Inr (Fin (of_int (timedelta_days td)))))"

text \<open>The dates the log records for an entity, as a set.\<close>

definition activity :: "'k \<Rightarrow> ('k \<rightharpoonup> timestamp list) \<Rightarrow> timestamp set" where
  "activity k la = (case la k of None \<Rightarrow> {} | Some ds \<Rightarrow> set ds)"

subsection \<open>complete_daily_index\<close>

text \<open>
  A table with the two key columns \<open>DATE\<close> and \<open>id\<close> and further named columns. A row
  holds its date (a calendar day, counted from the epoch), its entity identifier, and one
  cell per further column, in the order of \<open>columns\<close>; a missing cell (NaN) is \<open>None\<close>.
\<close>

type_synonym date = int

record ('i, 'v) row =
  row_DATE :: date
  row_id :: 'i
  cells :: "'v option list"

record ('i, 'v) frame =
  columns :: "string list"
  rows :: "('i, 'v) row list"


text \<open>
  \<open>full.merge(df, on=["id", "DATE"], how="left")\<close> for one row of \<open>full\<close>: the rows of
  \<open>df\<close> with that key, in their order, or one row with every further column missing.
\<close>

definition merge_left :: "'i \<Rightarrow> ('i, 'v) frame \<Rightarrow> date \<Rightarrow> ('i, 'v) row list" where
  "merge_left cid df d =
     (case filter (\<lambda>r. row_id r = cid \<and> row_DATE r = d) (rows df) of
        [] \<Rightarrow> [\<lparr> row_DATE = d, row_id = cid, cells = replicate (length (columns df)) None \<rparr>]
      | m # ms \<Rightarrow> m # ms)"

text \<open>\<open>out[agg_cols].fillna(0.0)\<close> on one row.\<close>

definition fillna :: "string list \<Rightarrow> string list \<Rightarrow> ('i, 'v::zero) row \<Rightarrow> ('i, 'v) row" where
  "fillna cols agg_cols r =
     r \<lparr> cells := map (\<lambda>(c, v). if c \<in> set agg_cols \<and> v = None then Some 0 else v)
                       (zip cols (cells r)) \<rparr>"

text \<open>
  \<open>df["id"].iloc[0]\<close> raises \<open>IndexError\<close> on an empty table; \<open>pd.date_range(dmin, dmax,
  freq="D")\<close> is every day from \<open>dmin\<close> to \<open>dmax\<close>; \<open>out[agg_cols]\<close> raises \<open>KeyError\<close>
  when a name is not a column of \<open>out\<close>, and the assignment \<open>out[agg_cols] = ...\<close> raises
  \<open>ValueError\<close> (columns must be same length as key) when \<open>agg_cols\<close> repeats a name. The
  column names of a table are taken to be distinct and different from \<open>DATE\<close> and \<open>id\<close>.
\<close>

definition complete_daily_index ::
  "('i, 'v::zero) frame \<Rightarrow> string list \<Rightarrow> py_error + ('i, 'v) frame" where
  "complete_daily_index df agg_cols =
     (case rows df of
        [] \<Rightarrow> Inl IndexError
      | r0 # rs \<Rightarrow>
          (let cid = row_id r0;
               dmin = fold min (map row_DATE rs) (row_DATE r0);
               dmax = fold max (map row_DATE rs) (row_DATE r0);
               full = [dmin..dmax];
               out = concat (map (merge_left cid df) full)
           in if \<exists>c \<in> set agg_cols. c \<notin> set (''DATE'' # ''id'' # columns df)
              then Inl KeyError
              else if \<not> distinct agg_cols then Inl ValueError
              else Inr \<lparr> columns = columns df, rows = map (fillna (columns df) agg_cols) out \<rparr>))"

text \<open>The dates that occur in a table.\<close>

definition dates_of :: "('i, 'v) frame \<Rightarrow> date set" where
  "dates_of df = row_DATE ` set (rows df)"

text \<open>\<open>df["id"].iloc[0]\<close> of a non-empty table.\<close>

definition first_id :: "('i, 'v) frame \<Rightarrow> 'i" where
  "first_id df = row_id (hd (rows df))"

text \<open>
  A small table of entity 7 with a gap: days 1 and 3, column \<open>x\<close> missing on day 3.
\<close>

definition gap_frame :: "(nat, int) frame" where
  "gap_frame = \<lparr> columns = [''x'', ''note''],
       rows = [\<lparr> row_DATE = 1, row_id = 7, cells = [Some 5, Some 1] \<rparr>,
               \<lparr> row_DATE = 3, row_id = 7, cells = [None, Some 2] \<rparr>] \<rparr>"

section \<open>segmentation_helper_functions.py\<close>

subsection \<open>The constructor\<close>







section \<open>Properties of the forecasting helpers\<close>

subsection \<open>The range-midpoint parser\<close>

text \<open>Evaluation of the rounding on numerals.\<close>

lemma bitlen_numeral [simp]:
  "bitlen 1 = 1"
  "bitlen (numeral num.One) = 1"
  "bitlen (numeral (num.Bit0 k)) = bitlen (numeral k) + 1"
  "bitlen (numeral (num.Bit1 k)) = bitlen (numeral k) + 1"
proof -
  show "bitlen 1 = 1" by (subst compute_bitlen) simp
  then show "bitlen (numeral num.One) = 1" by simp
  have "bitlen (numeral (num.Bit0 k)) = bitlen (numeral (num.Bit0 k) div 2) + 1"
    by (subst compute_bitlen) simp
  then show "bitlen (numeral (num.Bit0 k)) = bitlen (numeral k) + 1" by simp
  have "bitlen (numeral (num.Bit1 k)) = bitlen (numeral (num.Bit1 k) div 2) + 1"
    by (subst compute_bitlen) simp
  then show "bitlen (numeral (num.Bit1 k)) = bitlen (numeral k) + 1" by simp
qed

lemma floor_rat_numeral [simp]:
  "\<lfloor>numeral a / numeral b :: rat\<rfloor> = numeral a div numeral b"
  "\<lfloor>- numeral a / numeral b :: rat\<rfloor> = - numeral a div numeral b"
  "\<lfloor>1 / numeral b :: rat\<rfloor> = 1 div numeral b"
  using floor_divide_of_int_eq [of "numeral a" "numeral b", where ?'a = rat]
    floor_divide_of_int_eq [of "- numeral a" "numeral b", where ?'a = rat]
    floor_divide_of_int_eq [of 1 "numeral b", where ?'a = rat]
  by simp_all

lemma ceiling_rat_numeral [simp]:
  "\<lceil>numeral a / numeral b :: rat\<rceil> = - (- numeral a div numeral b)"
  "\<lceil>1 / numeral b :: rat\<rceil> = - (- 1 div numeral b)"
  using ceiling_divide_eq_div [of "numeral a" "numeral b"] ceiling_divide_eq_div [of 1 "numeral b"]
  by (simp_all add: ceiling_def)

lemmas fl = round_double_def floor_log2_def pow2_def round_half_even_def Let_def

lemmas ev = parse_employee_range_to_midpoint_def plus_rule_def dash_rule_def to_rule_def single_rule_def
  mean_of_def remove_commas_def contains_def float_of_string_def parse_decimal_def parse_exponent_def
  is_digit_def digit_val_def digits_val_def ascii_lower_def py_lower_def py_strip_def isspace_def
  float_strip_def is_float_space_def
  pow10_def fl

lemma dash_rule_fail:
  assumes "split_once ''-'' (remove_commas s) = Some (a, b)"
    and "float_of_string (py_strip a) = None \<or> float_of_string (py_strip b) = None"
  shows "dash_rule s = None"
  using assms by (auto simp: dash_rule_def mean_of_def split: option.splits)

text \<open>
  The order of the rules. For an argument that is not missing and whose stripped text
  \<open>s\<close> is not empty, the rules apply in this order. If \<open>s\<close> ends with \<open>+\<close> the result is that of the plus rule,
  and it is the sentinel as soon as the remainder does not convert. Otherwise a result of
  the dash rule is returned; when the dash rule gives none, which is the case whenever
  one of the two parts around the first \<open>-\<close> does not convert, a result of the
  \<open>" to "\<close> rule (entered when \<open>" to "\<close> occurs in the lower-cased text) is returned; and
  when that rule gives none either, the whole comma-stripped text is converted as one
  number. So \<open>"-5"\<close> gives \<open>-5.0\<close> by the last rule.
\<close>

theorem range_rule_priority:
  assumes "\<not> isna val" and "s = py_strip (py_str float_str val)" and "s \<noteq> []"
  shows "(last s = CHR ''+'' \<longrightarrow> parse_employee_range_to_midpoint float_str val = plus_rule s)
    \<and> (last s = CHR ''+'' \<and> float_of_string (py_strip (remove_commas (butlast s))) = None
         \<longrightarrow> parse_employee_range_to_midpoint float_str val = NaN)
    \<and> (last s \<noteq> CHR ''+''
         \<longrightarrow> (\<forall>r. dash_rule s = Some r \<longrightarrow> parse_employee_range_to_midpoint float_str val = r))
    \<and> (last s \<noteq> CHR ''+'' \<and> dash_rule s = None
         \<longrightarrow> (\<forall>r. to_rule s = Some r \<longrightarrow> parse_employee_range_to_midpoint float_str val = r)
           \<and> (to_rule s = None \<longrightarrow> parse_employee_range_to_midpoint float_str val = single_rule s))
    \<and> (\<forall>a b. split_once ''-'' (remove_commas s) = Some (a, b)
           \<and> (float_of_string (py_strip a) = None \<or> float_of_string (py_strip b) = None)
         \<longrightarrow> dash_rule s = None)
    \<and> parse_employee_range_to_midpoint float_str (Text ''-5'') = Fin (- 5)"
proof -
  have p: "parse_employee_range_to_midpoint float_str val =
      (if last s = CHR ''+'' then plus_rule s
       else (case dash_rule s of
               Some r \<Rightarrow> r
             | None \<Rightarrow> (case to_rule s of Some r \<Rightarrow> r | None \<Rightarrow> single_rule s)))"
    using assms(1,3) unfolding assms(2) by (simp add: parse_employee_range_to_midpoint_def Let_def)
  have 1: "last s = CHR ''+'' \<longrightarrow> parse_employee_range_to_midpoint float_str val = plus_rule s"
    by (simp add: p)
  have 2: "last s = CHR ''+'' \<and> float_of_string (py_strip (remove_commas (butlast s))) = None
         \<longrightarrow> parse_employee_range_to_midpoint float_str val = NaN"
    by (simp add: p plus_rule_def)
  have 3: "last s \<noteq> CHR ''+''
         \<longrightarrow> (\<forall>r. dash_rule s = Some r \<longrightarrow> parse_employee_range_to_midpoint float_str val = r)"
    by (simp add: p)
  have 4: "last s \<noteq> CHR ''+'' \<and> dash_rule s = None
         \<longrightarrow> (\<forall>r. to_rule s = Some r \<longrightarrow> parse_employee_range_to_midpoint float_str val = r)
           \<and> (to_rule s = None \<longrightarrow> parse_employee_range_to_midpoint float_str val = single_rule s)"
    by (simp add: p)
  have 5: "\<forall>a b. split_once ''-'' (remove_commas s) = Some (a, b)
           \<and> (float_of_string (py_strip a) = None \<or> float_of_string (py_strip b) = None)
         \<longrightarrow> dash_rule s = None"
    using dash_rule_fail by blast
  have 6: "parse_employee_range_to_midpoint float_str (Text ''-5'') = Fin (- 5)"
    by (simp add: ev)
  from 1 2 3 4 5 6 show ?thesis by blast
qed

text \<open>
  Instances: \<open>"-1 to 3"\<close> fails the dash rule (the part before the dash is empty) and is
  read by the \<open>" to "\<close> rule as the mean of -1 and 3; \<open>"1-3+"\<close> ends with \<open>+\<close> and gives
  the sentinel at once.
\<close>

theorem range_rule_priority_witness:
  "parse_employee_range_to_midpoint (\<lambda>f. []) (Text ''-1 to 3'') = Fin 1
   \<and> dash_rule ''-1 to 3'' = None \<and> to_rule ''-1 to 3'' = Some (Fin 1)
   \<and> parse_employee_range_to_midpoint (\<lambda>f. []) (Text ''1-3+'') = NaN"
proof -
  have a: "\<not> isna (Text ''-1 to 3'')" "''-1 to 3'' = py_strip (py_str (\<lambda>f. []) (Text ''-1 to 3''))"
    "''-1 to 3'' \<noteq> []" "last ''-1 to 3'' \<noteq> CHR ''+''"
    by (simp_all add: py_strip_def isspace_def)
  have sp: "split_once ''-'' (remove_commas ''-1 to 3'') = Some ([], ''1 to 3'')"
    by (simp add: remove_commas_def)
  have f: "float_of_string (py_strip []) = None"
    by (simp add: ev)
  have t: "to_rule ''-1 to 3'' = Some (Fin 1)"
    by (simp add: ev)
  note w = range_rule_priority [OF a(1) a(2) a(3)]
  have d: "dash_rule ''-1 to 3'' = None"
    using w sp f by blast
  have v: "parse_employee_range_to_midpoint (\<lambda>f. []) (Text ''-1 to 3'') = Fin 1"
    using w a(4) d t by blast
  have b: "\<not> isna (Text ''1-3+'')" "''1-3+'' = py_strip (py_str (\<lambda>f. []) (Text ''1-3+''))"
    "''1-3+'' \<noteq> []" "last ''1-3+'' = CHR ''+''"
    by (simp_all add: py_strip_def isspace_def)
  have g: "float_of_string (py_strip (remove_commas (butlast ''1-3+''))) = None"
    by (simp add: ev)
  have n: "parse_employee_range_to_midpoint (\<lambda>f. []) (Text ''1-3+'') = NaN"
    using range_rule_priority [OF b(1) b(2) b(3)] b(4) g by blast
  from v d t n show ?thesis by blast
qed

text \<open>
  C3. The rules are tried in the order plus, dash, \<open>" to "\<close>, single number, with the
  fall-through of the two range rules shown above, but the \<open>" to "\<close> rule is not
  case-insensitive: the test \<open>" to " in s.lower()\<close> accepts \<open>"26 TO 50"\<close>, the split
  \<open>split(" to ", 1)\<close> on the text in its own case then finds no separator, the rule gives
  nothing, and the single-number rule returns the sentinel, where the lower-case
  \<open>"26 to 50"\<close> gives 38.0.
\<close>

lemma char_of_eqI: "of_char c = (n::nat) \<Longrightarrow> char_of n = c"
  by auto

lemma lower_T_O: "char_of (116::nat) = CHR ''t''" "char_of (111::nat) = CHR ''o''"
  by (rule char_of_eqI, simp)+

theorem range_to_rule_case_slip:
  "contains '' to '' (py_lower ''26 TO 50'')
   \<and> split_once '' to '' (remove_commas ''26 TO 50'') = None
   \<and> to_rule ''26 TO 50'' = None
   \<and> parse_employee_range_to_midpoint float_str (Text ''26 TO 50'') = NaN
   \<and> parse_employee_range_to_midpoint float_str (Text ''26 to 50'') = Fin 38"
proof -
  have 1: "contains '' to '' (py_lower ''26 TO 50'')"
    by (simp add: contains_def py_lower_def lower_T_O)
  have 2: "split_once '' to '' (remove_commas ''26 TO 50'') = None"
    by (simp add: remove_commas_def)
  have 3: "to_rule ''26 TO 50'' = None"
    by (simp add: ev lower_T_O)
  have 4: "parse_employee_range_to_midpoint float_str (Text ''26 TO 50'') = NaN"
    by (simp add: ev lower_T_O)
  have 5: "parse_employee_range_to_midpoint float_str (Text ''26 to 50'') = Fin 38"
    by (simp add: ev)
  from 1 2 3 4 5 show ?thesis by (intro conjI)
qed

text \<open>
  C7. The five documented pairs: \<open>"1000+"\<close> gives 1000.0, \<open>"51-200"\<close> gives 125.5,
  \<open>"26 to 50"\<close> gives 38.0, and \<open>"garbage"\<close> and a missing argument give the sentinel.
\<close>

theorem range_midpoint_examples:
  "parse_employee_range_to_midpoint float_str (Text ''1000+'') = Fin 1000
   \<and> parse_employee_range_to_midpoint float_str (Text ''51-200'') = Fin (251 / 2)
   \<and> parse_employee_range_to_midpoint float_str (Text ''26 to 50'') = Fin 38
   \<and> parse_employee_range_to_midpoint float_str (Text ''garbage'') = NaN
   \<and> parse_employee_range_to_midpoint float_str Missing = NaN"
proof -
  have 1: "parse_employee_range_to_midpoint float_str (Text ''1000+'') = Fin 1000"
    by (simp add: ev)
  have 2: "parse_employee_range_to_midpoint float_str (Text ''51-200'') = Fin (251 / 2)"
    by (simp add: ev)
  have 3: "parse_employee_range_to_midpoint float_str (Text ''26 to 50'') = Fin 38"
    by (simp add: ev)
  have 4: "parse_employee_range_to_midpoint float_str (Text ''garbage'') = NaN"
    by (simp add: ev)
  have 5: "parse_employee_range_to_midpoint float_str Missing = NaN"
    by (simp add: parse_employee_range_to_midpoint_def)
  from 1 2 3 4 5 show ?thesis by blast
qed

subsection \<open>The weekly index\<close>

lemma weeks_from_set:
  "set (weeks_from c e) =
     {t. c \<le> t \<and> t \<le> e \<and> (\<exists>k::nat. t = c + int k * (7 * ns_per_day))}"
proof (induction c e rule: weeks_from.induct)
  case (1 cur stop)
  show ?case
  proof (cases "cur \<le> stop")
    case False
    then show ?thesis by (subst weeks_from.simps) (auto simp: ns_per_day_def)
  next
    case le: True
    show ?thesis
    proof (cases "cur = stop")
      case True
      have "\<And>t. (cur \<le> t \<and> t \<le> cur \<and> (\<exists>k::nat. t = cur + int k * (7 * ns_per_day))) = (t = cur)"
        by (auto intro: exI[of _ 0])
      with True show ?thesis by (subst weeks_from.simps) auto
    next
      case False
      have IH: "set (weeks_from (cur + 7 * ns_per_day) stop) =
        {t. cur + 7 * ns_per_day \<le> t \<and> t \<le> stop \<and>
            (\<exists>k::nat. t = cur + 7 * ns_per_day + int k * (7 * ns_per_day))}"
        using 1 le False by simp
      have "{t. cur \<le> t \<and> t \<le> stop \<and> (\<exists>k::nat. t = cur + int k * (7 * ns_per_day))} =
        insert cur {t. cur + 7 * ns_per_day \<le> t \<and> t \<le> stop \<and>
            (\<exists>k::nat. t = cur + 7 * ns_per_day + int k * (7 * ns_per_day))}"
        (is "?L = insert cur ?R")
      proof (intro set_eqI iffI)
        fix t assume "t \<in> ?L"
        then obtain k :: nat where k: "cur \<le> t" "t \<le> stop" "t = cur + int k * (7 * ns_per_day)"
          by auto
        show "t \<in> insert cur ?R"
        proof (cases k)
          case 0
          with k show ?thesis by simp
        next
          case (Suc j)
          with k have "t = cur + 7 * ns_per_day + int j * (7 * ns_per_day)"
            by (simp add: algebra_simps)
          moreover have "cur + 7 * ns_per_day \<le> t" using calculation by (simp add: ns_per_day_def)
          ultimately show ?thesis using k by auto
        qed
      next
        fix t assume "t \<in> insert cur ?R"
        then consider "t = cur" | "t \<in> ?R" by auto
        then show "t \<in> ?L"
        proof cases
          case 1
          then show ?thesis using le by (auto intro: exI[of _ 0])
        next
          case 2
          then obtain k :: nat where k: "cur + 7 * ns_per_day \<le> t" "t \<le> stop"
            "t = cur + 7 * ns_per_day + int k * (7 * ns_per_day)" by auto
          then have "t = cur + int (Suc k) * (7 * ns_per_day)" by (simp add: algebra_simps)
          moreover have "cur \<le> t" using k(1) by (simp add: ns_per_day_def)
          ultimately show ?thesis using k(2) by blast
        qed
      qed
      then show ?thesis using IH le False by (subst weeks_from.simps) simp
    qed
  qed
qed

lemma weeks_from_sorted: "sorted_wrt (<) (weeks_from c e)"
proof (induction c e rule: weeks_from.induct)
  case (1 cur stop)
  show ?case
  proof (cases "cur \<le> stop \<and> cur \<noteq> stop")
    case True
    then have "sorted_wrt (<) (weeks_from (cur + 7 * ns_per_day) stop)" using 1 by simp
    moreover have "\<forall>t \<in> set (weeks_from (cur + 7 * ns_per_day) stop). cur < t"
      by (auto simp: weeks_from_set ns_per_day_def)
    ultimately show ?thesis using True by (subst weeks_from.simps) simp
  next
    case False
    then show ?thesis by (subst weeks_from.simps) auto
  qed
qed

lemma next_sunday_props:
  assumes "t mod ns_per_day = 0"
  shows "is_sunday_midnight (next_sunday t)" "t \<le> next_sunday t"
    "next_sunday t < t + 7 * ns_per_day"
proof -
  obtain d where d: "t = d * ns_per_day"
    using assms by (metis mod_eq_0_iff_dvd dvd_def mult.commute)
  have nz: "ns_per_day > 0" by (simp add: ns_per_day_def)
  have w: "weekday t = (d + 3) mod 7" using nz by (simp add: weekday_def d)
  have r: "next_sunday t = (d + (6 - (d + 3) mod 7) mod 7) * ns_per_day"
    unfolding next_sunday_def is_on_offset_def w by (simp add: d algebra_simps)
  have "weekday (next_sunday t) = 6" unfolding r weekday_def using nz by simp presburger
  moreover have "next_sunday t mod ns_per_day = 0" unfolding r by simp
  ultimately show "is_sunday_midnight (next_sunday t)" by (simp add: is_sunday_midnight_def)
  define j where "j = (6 - (d + 3) mod 7) mod 7"
  have j: "0 \<le> j" "j < 7" by (simp_all add: j_def)
  have "next_sunday t = (d + j) * ns_per_day" using r by (simp add: j_def)
  also have "\<dots> = t + j * ns_per_day" by (simp add: d algebra_simps)
  finally have rj: "next_sunday t = t + j * ns_per_day" .
  have "0 \<le> j * ns_per_day" using j nz by simp
  then show "t \<le> next_sunday t" by (simp add: rj)
  have "j * ns_per_day < 7 * ns_per_day" using j nz by (intro mult_strict_right_mono) simp_all
  then show "next_sunday t < t + 7 * ns_per_day" by (simp add: rj)
qed

lemma midnight_mod [simp]: "midnight t mod ns_per_day = 0"
  by (simp add: midnight_def)

lemma sunday_step:
  assumes "is_sunday_midnight c"
  shows "is_sunday_midnight t \<and> c \<le> t \<longleftrightarrow> (\<exists>k::nat. t = c + int k * (7 * ns_per_day))"
proof -
  have nz: "ns_per_day > 0" by (simp add: ns_per_day_def)
  from assms obtain a where a: "c = a * ns_per_day" "(a + 3) mod 7 = 6"
    unfolding is_sunday_midnight_def weekday_def
    by (metis mod_eq_0_iff_dvd dvd_def mult.commute nonzero_mult_div_cancel_right nz less_irrefl)
  show ?thesis
  proof
    assume h: "is_sunday_midnight t \<and> c \<le> t"
    then obtain b where b: "t = b * ns_per_day" "(b + 3) mod 7 = 6"
      unfolding is_sunday_midnight_def weekday_def
      by (metis mod_eq_0_iff_dvd dvd_def mult.commute nonzero_mult_div_cancel_right nz less_irrefl)
    from h have "a \<le> b" unfolding a b using nz by simp
    moreover have "(b - a) mod 7 = 0" using a(2) b(2) by presburger
    ultimately obtain k :: nat where "b - a = 7 * int k"
      by (metis mod_eq_0_iff_dvd dvd_def diff_ge_0_iff_ge zero_le_mult_iff nat_0_le
          not_numeral_le_zero)
    then have "t = c + int k * (7 * ns_per_day)" unfolding a b by (simp add: algebra_simps)
    then show "\<exists>k::nat. t = c + int k * (7 * ns_per_day)" ..
  next
    assume "\<exists>k::nat. t = c + int k * (7 * ns_per_day)"
    then obtain k :: nat where k: "t = c + int k * (7 * ns_per_day)" ..
    then have t: "t = (a + 7 * int k) * ns_per_day" unfolding a by (simp add: algebra_simps)
    have "weekday t = 6" unfolding t weekday_def using nz a(2) by simp presburger
    moreover have "t mod ns_per_day = 0" unfolding t by simp
    moreover have "c \<le> t" unfolding k using nz by simp
    ultimately show "is_sunday_midnight t \<and> c \<le> t" by (simp add: is_sunday_midnight_def)
  qed
qed

lemma sunday_index_set:
  "set (weeks_from (next_sunday (midnight s)) (midnight e)) =
     {t. midnight s \<le> t \<and> t \<le> midnight e \<and> is_sunday_midnight t}"
proof -
  let ?c = "next_sunday (midnight s)"
  have c: "is_sunday_midnight ?c" "midnight s \<le> ?c" "?c < midnight s + 7 * ns_per_day"
    by (rule next_sunday_props, simp)+
  have "\<And>t. is_sunday_midnight t \<Longrightarrow> midnight s \<le> t \<Longrightarrow> ?c \<le> t"
  proof (rule ccontr)
    fix t assume t: "is_sunday_midnight t" "midnight s \<le> t" "\<not> ?c \<le> t"
    then have "is_sunday_midnight ?c \<and> t \<le> ?c" using c by simp
    then obtain k :: nat where k: "?c = t + int k * (7 * ns_per_day)"
      using sunday_step[OF t(1), of ?c] by blast
    have "k \<noteq> 0"
    proof
      assume "k = 0"
      then have "?c = t" using k by simp
      with t(3) show False by simp
    qed
    then have "int k \<ge> 1" by simp
    then have "int k * (7 * ns_per_day) \<ge> 1 * (7 * ns_per_day)"
      by (intro mult_right_mono) (simp_all add: ns_per_day_def)
    then show False using k c(3) t(2) by simp
  qed
  then show ?thesis
    unfolding weeks_from_set
    using sunday_step[OF c(1)] c(2) by (auto; metis order_trans)
qed

text \<open>Away from the ends of the representable range no step raises.\<close>

lemma midnight_bounds: "midnight t \<le> t" "t - ns_per_day < midnight t"
proof -
  have nz: "0 < ns_per_day" by (simp add: ns_per_day_def)
  have "0 \<le> t mod ns_per_day" "t mod ns_per_day < ns_per_day" using nz by simp_all
  then show "midnight t \<le> t" "t - ns_per_day < midnight t" by (simp_all add: midnight_def)
qed

lemma checked_in_bounds: "in_bounds v \<Longrightarrow> checked v = Inr v"
  by (simp add: checked_def)

lemma ts_normalize_ok:
  assumes "well_inside t"
  shows "ts_normalize t = Inr (midnight t)"
proof -
  have nz: "0 < ns_per_day" by (simp add: ns_per_day_def)
  have "ts_min \<le> midnight t" using midnight_bounds(2)[of t] assms nz by (simp add: well_inside_def)
  moreover have "midnight t \<le> ts_max" using midnight_bounds(1)[of t] assms nz by (simp add: well_inside_def)
  ultimately have "in_bounds (midnight t)" by (simp add: in_bounds_def)
  then show ?thesis by (simp add: ts_normalize_def midnight_def checked_def)
qed

lemma generate_range_ok:
  "ts_min \<le> cur \<Longrightarrow> stop + 7 * ns_per_day \<le> ts_max \<Longrightarrow>
   generate_range cur stop = Inr (weeks_from cur stop)"
proof (induction cur stop rule: weeks_from.induct)
  case (1 cur stop)
  have nz: "0 < ns_per_day" by (simp add: ns_per_day_def)
  show ?case
  proof (cases "cur \<le> stop \<and> cur \<noteq> stop")
    case False
    then show ?thesis
      by (subst generate_range.simps, subst weeks_from.simps) auto
  next
    case True
    then have b: "in_bounds (cur + 7 * ns_per_day)"
      using "1.prems" nz by (simp add: in_bounds_def)
    have "generate_range (cur + 7 * ns_per_day) stop = Inr (weeks_from (cur + 7 * ns_per_day) stop)"
      using "1.IH" True "1.prems" nz by simp
    then show ?thesis
      using True by (subst generate_range.simps, subst weeks_from.simps) (simp add: checked_in_bounds[OF b])
  qed
qed

lemma weeks_from_empty: "stop < cur \<Longrightarrow> weeks_from cur stop = []"
  by (subst weeks_from.simps) simp

lemma generate_range_empty: "stop < cur \<Longrightarrow> generate_range cur stop = Inr []"
  by (subst generate_range.simps) simp

lemma make_sunday_index_ok:
  assumes "well_inside start" "well_inside stop"
  shows "make_sunday_index start stop = Inr (weeks_from (next_sunday (midnight start)) (midnight stop))"
proof -
  let ?a = "midnight start" and ?b = "midnight stop"
  let ?c = "next_sunday ?a"
  have nz: "0 < ns_per_day" by (simp add: ns_per_day_def)
  have c: "?a \<le> ?c" "?c < ?a + 7 * ns_per_day"
    by (rule next_sunday_props, simp)+
  have a: "start - ns_per_day < ?a" "?a \<le> start" "?b \<le> stop"
    by (simp_all add: midnight_bounds)
  have lo: "ts_min + 7 * ns_per_day \<le> ?a" using a(1) assms(1) by (simp add: well_inside_def)
  have hi: "?c + ns_per_day \<le> ts_max" using c(2) a(2) assms(1) by (simp add: well_inside_def)
  have cb: "in_bounds ?c" using lo hi c(1) nz by (simp add: in_bounds_def)
  have rf: "rollforward ?a = Inr ?c"
  proof (cases "is_on_offset ?a")
    case True
    then show ?thesis by (simp add: rollforward_def next_sunday_def)
  next
    case False
    with cb have "in_bounds (?a + ((6 - weekday ?a) mod 7) * ns_per_day)"
      by (simp add: next_sunday_def)
    with False show ?thesis by (simp add: rollforward_def next_sunday_def checked_def)
  qed
  have wk: "in_bounds (?c - 7 * ns_per_day)"
    using lo hi c(1) nz by (simp add: in_bounds_def)
  have gr: "generate_range ?c ?b = Inr (weeks_from ?c ?b)"
  proof (rule generate_range_ok)
    show "ts_min \<le> ?c" using cb by (simp add: in_bounds_def)
    show "?b + 7 * ns_per_day \<le> ts_max" using a(3) assms(2) nz by (simp add: well_inside_def)
  qed
  have dr: "date_range_W_SUN ?a ?b = Inr (weeks_from ?c ?b)"
  proof (cases "?b < ?c")
    case True
    have "?c - 7 * ns_per_day < ?c" using nz by simp
    then have "generate_range ?c (?c - 7 * ns_per_day) = Inr []" by (rule generate_range_empty)
    then show ?thesis
      using True by (simp add: date_range_W_SUN_def rf checked_in_bounds[OF wk] weeks_from_empty)
  next
    case False
    then show ?thesis by (simp add: date_range_W_SUN_def rf gr)
  qed
  show ?thesis
    by (simp add: make_sunday_index_def ts_normalize_ok[OF assms(1)] ts_normalize_ok[OF assms(2)] dr)
qed

text \<open>
  C8 (amended). For start and end at least eight days inside the representable range of
  timestamps, \<open>make_sunday_index\<close> returns exactly the Sunday midnights between the
  midnight of the start and the midnight of the end, both included, in strictly ascending
  order. So every element is a Sunday, a normalized endpoint that is a Sunday inside the
  range is an element, and the index is empty when the range holds no Sunday.
\<close>

theorem make_sunday_index_exact:
  assumes "well_inside start" and "well_inside stop"
  shows "\<exists>xs. make_sunday_index start stop = Inr xs
     \<and> set xs = {t. midnight start \<le> t \<and> t \<le> midnight stop \<and> is_sunday_midnight t}
     \<and> sorted_wrt (<) xs
     \<and> list_all is_sunday_midnight xs
     \<and> (is_sunday_midnight (midnight start) \<and> midnight start \<le> midnight stop
          \<longrightarrow> midnight start \<in> set xs)
     \<and> (is_sunday_midnight (midnight stop) \<and> midnight start \<le> midnight stop
          \<longrightarrow> midnight stop \<in> set xs)
     \<and> ((\<nexists>t. midnight start \<le> t \<and> t \<le> midnight stop \<and> is_sunday_midnight t)
          \<longrightarrow> xs = [])"
proof -
  define xs where "xs = weeks_from (next_sunday (midnight start)) (midnight stop)"
  have r: "make_sunday_index start stop = Inr xs"
    unfolding xs_def by (rule make_sunday_index_ok[OF assms])
  have s: "set xs = {t. midnight start \<le> t \<and> t \<le> midnight stop \<and> is_sunday_midnight t}"
    unfolding xs_def by (rule sunday_index_set)
  have o: "sorted_wrt (<) xs" unfolding xs_def by (rule weeks_from_sorted)
  have e: "(\<nexists>t. midnight start \<le> t \<and> t \<le> midnight stop \<and> is_sunday_midnight t) \<longrightarrow> xs = []"
    using s by (metis (mono_tags, lifting) empty_Collect_eq set_empty)
  have l: "list_all is_sunday_midnight xs" by (simp add: list_all_iff s)
  have p: "is_sunday_midnight (midnight start) \<and> midnight start \<le> midnight stop
          \<longrightarrow> midnight start \<in> set xs" by (simp add: s)
  have q: "is_sunday_midnight (midnight stop) \<and> midnight start \<le> midnight stop
          \<longrightarrow> midnight stop \<in> set xs" by (simp add: s)
  from r s o l p q e show ?thesis by blast
qed

text \<open>
  An instance: from Thursday 1970-01-01 12:00 to Sunday 1970-01-11 06:00 the index holds
  the midnight of 11 January (day 10).
\<close>

theorem make_sunday_index_exact_witness:
  "well_inside (ns_per_day div 2) \<and> well_inside (10 * ns_per_day + ns_per_day div 4)
   \<and> is_sunday_midnight (midnight (10 * ns_per_day + ns_per_day div 4))
   \<and> midnight (ns_per_day div 2) \<le> midnight (10 * ns_per_day + ns_per_day div 4)
   \<and> (\<exists>xs. make_sunday_index (ns_per_day div 2) (10 * ns_per_day + ns_per_day div 4) = Inr xs
         \<and> midnight (10 * ns_per_day + ns_per_day div 4) \<in> set xs)"
proof -
  have w: "well_inside (ns_per_day div 2)" "well_inside (10 * ns_per_day + ns_per_day div 4)"
    by (simp_all add: well_inside_def ns_per_day_def ts_min_def ts_max_def)
  have a: "is_sunday_midnight (midnight (10 * ns_per_day + ns_per_day div 4))"
    by (simp add: is_sunday_midnight_def midnight_def weekday_def ns_per_day_def)
  have b: "midnight (ns_per_day div 2) \<le> midnight (10 * ns_per_day + ns_per_day div 4)"
    by (simp add: midnight_def ns_per_day_def)
  from make_sunday_index_exact [OF w] obtain xs where
    x: "make_sunday_index (ns_per_day div 2) (10 * ns_per_day + ns_per_day div 4) = Inr xs"
    and m: "is_sunday_midnight (midnight (10 * ns_per_day + ns_per_day div 4))
          \<and> midnight (ns_per_day div 2) \<le> midnight (10 * ns_per_day + ns_per_day div 4)
          \<longrightarrow> midnight (10 * ns_per_day + ns_per_day div 4) \<in> set xs"
    by blast
  from m a b have "midnight (10 * ns_per_day + ns_per_day div 4) \<in> set xs" by blast
  with x w a b show ?thesis by blast
qed

text \<open>
  At the end of the range the claim fails: for start and end on Friday 2262-04-11, a
  valid timestamp, no Sunday lies in the range, and the call does not return the empty
  index but raises, because the roll-forward to Sunday 2262-04-13 is out of range.
\<close>

theorem make_sunday_index_out_of_bounds:
  "in_bounds 9223286400000000000
   \<and> make_sunday_index 9223286400000000000 9223286400000000000 = Inl OutOfBoundsDatetime"
  by (simp add: make_sunday_index_def ts_normalize_def date_range_W_SUN_def rollforward_def
      is_on_offset_def weekday_def checked_def in_bounds_def ts_min_def ts_max_def ns_per_day_def)

subsection \<open>Recency\<close>

lemma py_max_Max: "py_max m ds = Max (set (m # ds))"
proof (induction ds arbitrary: m)
  case Nil
  then show ?case by simp
next
  case (Cons d ds)
  have "Max (insert (if m < d then d else m) (set ds)) = Max (insert m (insert d (set ds)))"
    by (cases "set ds = {}") (auto simp: max_def)
  with Cons show ?case by simp
qed


lemma days_since_last_activity_eq:
  "days_since_last_activity k s la =
     (if {d \<in> activity k la. d \<le> s} = {} then Inr NaN
      else if s - Max {d \<in> activity k la. d \<le> s} \<le> ts_max
      then Inr (Fin (of_int ((s - Max {d \<in> activity k la. d \<le> s}) div ns_per_day)))
      else Inl OutOfBoundsDatetime)"
proof -
  define dates where "dates = (case la k of None \<Rightarrow> [] | Some ds \<Rightarrow> ds)"
  have a: "activity k la = set dates"
    by (simp add: activity_def dates_def split: option.splits)
  have s: "{d \<in> set dates. d \<le> s} = set (filter (\<lambda>d. d \<le> s) dates)" by auto
  show ?thesis
  proof (cases "filter (\<lambda>d. d \<le> s) dates")
    case Nil
    then show ?thesis
      unfolding days_since_last_activity_def a s dates_def[symmetric] Let_def by simp
  next
    case (Cons p ps)
    have "Max (set (p # ps)) \<in> set (p # ps)" by (rule Max_in) simp_all
    then have "Max (set (p # ps)) \<in> {d \<in> set dates. d \<le> s}" unfolding s Cons .
    then have "Max (set (p # ps)) \<le> s" by blast
    then have lo: "ts_min \<le> s - Max (set (p # ps))" unfolding ts_min_def by linarith
    show ?thesis
      unfolding days_since_last_activity_def a s dates_def[symmetric] Let_def Cons list.case
        py_max_Max
      using lo by (simp add: checked_def in_bounds_def timedelta_days_def)
  qed
qed

text \<open>
  C4 (amended). \<open>days_since_last_activity\<close> returns the sentinel when the entity has no
  recorded date at or before the snapshot (no entry, an empty list, or only later dates).
  Otherwise, when the gap from the greatest such date to the snapshot is at most
  \<open>ts_max\<close> nanoseconds (about 292 years), it returns the whole days of that gap, and
  for a larger gap the subtraction raises. A returned number is never negative, and the
  outcome depends only on the set of the entity's dates, hence not on their order.
\<close>

theorem days_since_last_activity_spec:
  "days_since_last_activity k s la =
     (if {d \<in> activity k la. d \<le> s} = {} then Inr NaN
      else if s - Max {d \<in> activity k la. d \<le> s} \<le> ts_max
      then Inr (Fin (of_int ((s - Max {d \<in> activity k la. d \<le> s}) div ns_per_day)))
      else Inl OutOfBoundsDatetime)
   \<and> (la k = None \<or> la k = Some [] \<or> (\<exists>ds. la k = Some ds \<and> (\<forall>d \<in> set ds. s < d))
        \<longrightarrow> days_since_last_activity k s la = Inr NaN)
   \<and> (\<forall>r. days_since_last_activity k s la = Inr (Fin r) \<longrightarrow> 0 \<le> r)
   \<and> days_since_last_activity k s la \<noteq> Inr PInf \<and> days_since_last_activity k s la \<noteq> Inr NInf
   \<and> (\<forall>la'. activity k la' = activity k la
        \<longrightarrow> days_since_last_activity k s la' = days_since_last_activity k s la)"
proof -
  let ?Q = "{d \<in> activity k la. d \<le> s}"
  have nz: "ns_per_day > 0" by (simp add: ns_per_day_def)
  have nonneg: "0 \<le> (s - Max ?Q) div ns_per_day" if "?Q \<noteq> {}"
  proof -
    have "finite ?Q" by (simp add: activity_def split: option.splits)
    then have "Max ?Q \<in> ?Q" using that by (rule Max_in)
    then have "0 \<le> s - Max ?Q" by simp
    then show ?thesis using nz by (simp add: pos_imp_zdiv_nonneg_iff)
  qed
  have absent: "la k = None \<or> la k = Some [] \<or> (\<exists>ds. la k = Some ds \<and> (\<forall>d \<in> set ds. s < d))
      \<Longrightarrow> ?Q = {}"
    by (fastforce simp: activity_def)
  show ?thesis
    using nonneg absent by (auto simp: days_since_last_activity_eq)
qed

text \<open>
  An instance: entity 7 was active on days 1, 9 and 4 (in that order) and the snapshot
  is noon of day 6, so the result is 2; the same dates in another order give the same.
\<close>

theorem days_since_last_activity_spec_witness:
  "days_since_last_activity (7::nat) (6 * ns_per_day + ns_per_day div 2)
       [7 \<mapsto> [ns_per_day, 9 * ns_per_day, 4 * ns_per_day]] = Inr (Fin 2)
   \<and> days_since_last_activity (7::nat) (6 * ns_per_day + ns_per_day div 2)
       [7 \<mapsto> [4 * ns_per_day, ns_per_day, 9 * ns_per_day]] = Inr (Fin 2)
   \<and> days_since_last_activity (7::nat) (6 * ns_per_day + ns_per_day div 2)
       [7 \<mapsto> [9 * ns_per_day]] = Inr NaN"
proof -
  let ?s = "6 * ns_per_day + ns_per_day div 2"
  let ?la = "[(7::nat) \<mapsto> [ns_per_day, 9 * ns_per_day, 4 * ns_per_day]]"
  let ?la' = "[(7::nat) \<mapsto> [4 * ns_per_day, ns_per_day, 9 * ns_per_day]]"
  let ?la2 = "[(7::nat) \<mapsto> [9 * ns_per_day]]"
  have v: "days_since_last_activity (7::nat) ?s ?la = Inr (Fin 2)"
    by (simp add: days_since_last_activity_def timedelta_days_def ns_per_day_def checked_def
        in_bounds_def ts_min_def ts_max_def)
  have a: "activity (7::nat) ?la' = activity 7 ?la"
    by (auto simp: activity_def)
  have f: "?la2 7 = None \<or> ?la2 7 = Some [] \<or> (\<exists>ds. ?la2 7 = Some ds \<and> (\<forall>d \<in> set ds. ?s < d))"
    by (simp add: ns_per_day_def)
  note spec = days_since_last_activity_spec [of 7 ?s ?la]
  note spec2 = days_since_last_activity_spec [of 7 ?s ?la2]
  have "days_since_last_activity (7::nat) ?s ?la' = days_since_last_activity 7 ?s ?la"
    by (rule spec [THEN conjunct2, THEN conjunct2, THEN conjunct2, THEN conjunct2,
          THEN conjunct2, rule_format, OF a])
  moreover have "days_since_last_activity (7::nat) ?s ?la2 = Inr NaN"
    by (rule spec2 [THEN conjunct2, THEN conjunct1, rule_format, OF f])
  ultimately show ?thesis using v by (simp only: simp_thms)
qed

text \<open>
  A gap beyond the range of a \<open>Timedelta\<close>: snapshot 2024-01-01, one activity on
  1700-01-01. Both are valid timestamps, and the call raises instead of returning the
  day count.
\<close>

theorem days_since_last_activity_out_of_bounds:
  "in_bounds 1704067200000000000 \<and> in_bounds (- 8520336000000000000)
   \<and> days_since_last_activity (7::nat) 1704067200000000000 [7 \<mapsto> [- 8520336000000000000]]
       = Inl OutOfBoundsDatetime"
  by (simp add: days_since_last_activity_def checked_def in_bounds_def ts_min_def ts_max_def)

subsection \<open>Daily gap-fill\<close>

lemma fillna_keys [simp]: "row_DATE (fillna cols a r) = row_DATE r" "row_id (fillna cols a r) = row_id r"
  by (simp_all add: fillna_def)

lemma fillna_idem: "fillna cols a (fillna cols a r) = fillna cols a r"
proof -
  have "map (\<lambda>(c, v). if c \<in> set a \<and> v = None then Some 0 else v)
          (zip cols (map (\<lambda>(c, v). if c \<in> set a \<and> v = None then Some 0 else v) (zip cols vs)))
        = map (\<lambda>(c, v). if c \<in> set a \<and> v = None then Some (0::'b) else v) (zip cols vs)" for vs
  proof (induction cols arbitrary: vs)
    case Nil
    then show ?case by simp
  next
    case (Cons c cols)
    then show ?case by (cases vs) auto
  qed
  then show ?thesis by (simp add: fillna_def)
qed

lemma merge_left_nonempty: "merge_left cid df d \<noteq> []"
  by (simp add: merge_left_def split: list.splits)

lemma merge_left_keys: "r \<in> set (merge_left cid df d) \<Longrightarrow> row_id r = cid \<and> row_DATE r = d"
proof -
  assume r: "r \<in> set (merge_left cid df d)"
  show ?thesis
  proof (cases "filter (\<lambda>r. row_id r = cid \<and> row_DATE r = d) (rows df)")
    case Nil
    with r show ?thesis by (simp add: merge_left_def)
  next
    case (Cons m ms)
    with r have "r \<in> set (filter (\<lambda>r. row_id r = cid \<and> row_DATE r = d) (rows df))"
      by (simp add: merge_left_def)
    then show ?thesis by simp
  qed
qed

lemma filter_concat_groups:
  assumes "\<And>d r. r \<in> set (g d) \<Longrightarrow> key r = d" "distinct ds"
  shows "filter (\<lambda>r. key r = d) (concat (map g ds)) = (if d \<in> set ds then g d else [])"
  using assms(2)
proof (induction ds)
  case Nil
  then show ?case by simp
next
  case (Cons e ds)
  have 1: "filter (\<lambda>r. key r = d) (g e) = (if e = d then g e else [])"
    using assms(1)[of _ e] by (auto simp: filter_empty_conv intro: filter_True)
  show ?case using Cons 1 by auto
qed

lemma fold_min_Min: "fold min xs (x::int) = Min (set (x # xs))"
  by (rule Min.set_eq_fold [symmetric])

lemma fold_max_Max: "fold max xs (x::int) = Max (set (x # xs))"
  by (rule Max.set_eq_fold [symmetric])

lemma complete_daily_index_eq:
  assumes "rows df \<noteq> []" "set agg \<subseteq> set (''DATE'' # ''id'' # columns df)" "distinct agg"
  shows "complete_daily_index df agg =
     Inr \<lparr> columns = columns df,
           rows = map (fillna (columns df) agg)
                    (concat (map (merge_left (first_id df) df) [Min (dates_of df)..Max (dates_of df)])) \<rparr>"
proof -
  obtain r0 rs where r: "rows df = r0 # rs" using assms(1) by (cases "rows df") auto
  have d: "dates_of df = set (row_DATE r0 # map row_DATE rs)"
    by (simp add: dates_of_def r)
  have k: "\<not> (\<exists>c \<in> set agg. c \<notin> set (''DATE'' # ''id'' # columns df))"
    using assms(2) by blast
  show ?thesis
    unfolding complete_daily_index_def r list.case Let_def fold_min_Min fold_max_Max d[symmetric]
    using k assms(3) by (simp add: first_id_def r)
qed

lemma complete_daily_index_Inr:
  assumes "complete_daily_index df agg = Inr out"
  shows "rows df \<noteq> []" "set agg \<subseteq> set (''DATE'' # ''id'' # columns df)" "distinct agg"
proof -
  show "rows df \<noteq> []" using assms by (auto simp: complete_daily_index_def)
  show "distinct agg"
  proof (rule ccontr)
    assume "\<not> distinct agg"
    then have "complete_daily_index df agg = Inl KeyError \<or> complete_daily_index df agg = Inl IndexError
        \<or> complete_daily_index df agg = Inl ValueError"
      unfolding complete_daily_index_def Let_def by (simp split: list.splits)
    with assms show False by auto
  qed
  show "set agg \<subseteq> set (''DATE'' # ''id'' # columns df)"
  proof (rule ccontr)
    assume "\<not> set agg \<subseteq> set (''DATE'' # ''id'' # columns df)"
    then have "\<exists>c \<in> set agg. c \<notin> set (''DATE'' # ''id'' # columns df)" by blast
    then have "complete_daily_index df agg = Inl KeyError \<or> complete_daily_index df agg = Inl IndexError"
      unfolding complete_daily_index_def Let_def by (simp split: list.splits)
    with assms show False by auto
  qed
qed

lemma dates_range:
  assumes "rows df \<noteq> []"
  shows "Min (dates_of df) \<le> Max (dates_of df)" "Min (dates_of df) \<in> dates_of df"
proof -
  have f: "finite (dates_of df)" "dates_of df \<noteq> {}" using assms by (simp_all add: dates_of_def)
  then show "Min (dates_of df) \<le> Max (dates_of df)" by simp
  show "Min (dates_of df) \<in> dates_of df" using f by (rule Min_in)
qed

lemma dates_of_output:
  "row_DATE ` set (map (fillna cols agg) (concat (map (merge_left cid df) ds))) = set ds"
proof -
  have "row_DATE ` set (concat (map (merge_left cid df) ds)) = set ds"
  proof (intro set_eqI iffI)
    fix d assume "d \<in> row_DATE ` set (concat (map (merge_left cid df) ds))"
    then show "d \<in> set ds" by (auto dest: merge_left_keys)
  next
    fix d assume d: "d \<in> set ds"
    obtain r where r: "r \<in> set (merge_left cid df d)"
      using merge_left_nonempty[of cid df d] by (cases "merge_left cid df d") auto
    then have "row_DATE r = d" by (auto dest: merge_left_keys)
    then show "d \<in> row_DATE ` set (concat (map (merge_left cid df) ds))"
      using r d by force
  qed
  then show ?thesis by (simp add: image_image)
qed

lemma filter_groups:
  assumes "\<And>e r. r \<in> set (g e) \<Longrightarrow> Q r = (e = d)" "distinct ds"
  shows "filter Q (concat (map g ds)) = (if d \<in> set ds then g d else [])"
  using assms(2)
proof (induction ds)
  case Nil
  then show ?case by simp
next
  case (Cons e ds)
  have 1: "filter Q (g e) = (if e = d then g e else [])"
  proof (cases "e = d")
    case True
    then have "\<forall>r \<in> set (g e). Q r" using assms(1) by blast
    then show ?thesis using True by simp
  next
    case False
    then have "\<forall>r \<in> set (g e). \<not> Q r" using assms(1) by blast
    then show ?thesis using False by simp
  qed
  from Cons have 2: "filter Q (concat (map g ds)) = (if d \<in> set ds then g d else [])"
    and 3: "e \<notin> set ds" by simp_all
  show ?case
  proof (cases "e = d")
    case True
    with 3 have "d \<notin> set ds" by simp
    with 1 2 True show ?thesis by simp
  next
    case False
    with 1 2 show ?thesis by simp
  qed
qed

lemma merge_left_output:
  assumes "distinct ds" "d \<in> set ds"
  shows "merge_left cid \<lparr> columns = cols,
            rows = map (fillna cols agg) (concat (map (merge_left cid df) ds)) \<rparr> d
         = map (fillna cols agg) (merge_left cid df d)"
proof -
  define g where "g = (\<lambda>e. map (fillna cols agg) (merge_left cid df e))"
  have eq: "map (fillna cols agg) (concat (map (merge_left cid df) ds)) = concat (map g ds)"
    unfolding g_def by (induction ds) simp_all
  have keys: "Q r = (e = d)" if "r \<in> set (g e)" and "Q = (\<lambda>r. row_id r = cid \<and> row_DATE r = d)"
    for e r Q
  proof -
    from that(1) obtain x where x: "x \<in> set (merge_left cid df e)" "r = fillna cols agg x"
      unfolding g_def by auto
    from merge_left_keys[OF x(1)] have "row_id r = cid" "row_DATE r = e" by (simp_all add: x(2))
    then show ?thesis by (simp add: that(2))
  qed
  have f: "filter (\<lambda>r. row_id r = cid \<and> row_DATE r = d) (concat (map g ds)) = g d"
    using filter_groups[of g "\<lambda>r. row_id r = cid \<and> row_DATE r = d" d ds, OF keys[OF _ refl] assms(1)]
      assms(2) by simp
  obtain m ms where m: "g d = m # ms"
    using merge_left_nonempty[of cid df d] unfolding g_def by (cases "merge_left cid df d") auto
  have "merge_left cid \<lparr> columns = cols, rows = concat (map g ds) \<rparr> d = g d"
    unfolding merge_left_def by (simp only: frame.simps f m list.case)
  then show ?thesis by (simp only: eq g_def)
qed

lemma complete_daily_index_idem:
  assumes "complete_daily_index df agg = Inr out"
  shows "complete_daily_index out agg = Inr out"
proof -
  note h = complete_daily_index_Inr[OF assms]
  let ?cid = "first_id df"
  let ?ds = "[Min (dates_of df)..Max (dates_of df)]"
  let ?F = "fillna (columns df) agg"
  have out: "out = \<lparr> columns = columns df, rows = map ?F (concat (map (merge_left ?cid df) ?ds)) \<rparr>"
    using assms complete_daily_index_eq[OF h] by simp
  have ds_ne: "?ds \<noteq> []" using dates_range(1)[OF h(1)] by simp
  then obtain d0 ds' where ds: "?ds = d0 # ds'" by (cases ?ds) auto
  obtain m ms where m: "merge_left ?cid df d0 = m # ms"
    using merge_left_nonempty[of ?cid df d0] by (cases "merge_left ?cid df d0") auto
  have rows_ne: "rows out \<noteq> []" by (simp add: out ds m)
  have cols: "columns out = columns df" by (simp add: out)
  have "row_DATE ` set (rows out) = set ?ds"
    by (subst out) (simp only: frame.select_convs dates_of_output)
  then have dts: "dates_of out = set ?ds"
    by (simp only: dates_of_def [of out])
  have le: "Min (dates_of df) \<le> Max (dates_of df)" by (rule dates_range(1)[OF h(1)])
  have iv: "dates_of out = {Min (dates_of df)..Max (dates_of df)}" by (simp add: dts)
  have mn: "Min (dates_of out) = Min (dates_of df)" "Max (dates_of out) = Max (dates_of df)"
    unfolding iv using le by (auto intro: Min_eqI Max_eqI)
  have "row_id m = ?cid" using m merge_left_keys[of m ?cid df d0] by simp
  moreover have "rows out = ?F m # map ?F ms @ map ?F (concat (map (merge_left ?cid df) ds'))"
    by (subst out) (simp add: ds m)
  ultimately have fid: "first_id out = ?cid" by (simp add: first_id_def [of out])
  have step: "map (merge_left ?cid out) ?ds = map (\<lambda>d. map ?F (merge_left ?cid df d)) ?ds"
    unfolding out by (rule map_cong[OF refl]) (simp add: merge_left_output)
  have "complete_daily_index out agg =
     Inr \<lparr> columns = columns out,
           rows = map (fillna (columns out) agg)
                    (concat (map (merge_left (first_id out) out) [Min (dates_of out)..Max (dates_of out)])) \<rparr>"
    using rows_ne h(2) h(3) by (intro complete_daily_index_eq) (simp_all add: cols)
  also have "\<dots> = Inr \<lparr> columns = columns df,
           rows = map ?F (concat (map (\<lambda>d. map ?F (merge_left ?cid df d)) ?ds)) \<rparr>"
    by (simp only: cols fid mn step)
  also have "\<dots> = Inr out"
    by (simp add: out map_concat comp_def fillna_idem)
  finally show ?thesis .
qed










text \<open>A repeated name in the list of aggregate columns makes the call raise.\<close>

lemma complete_daily_index_repeated_name:
  "complete_daily_index gap_frame [''x'', ''x''] = Inl ValueError"
  by (simp add: gap_frame_def complete_daily_index_def Let_def)

text \<open>
  C9. Gap-fill is idempotent: whenever \<open>complete_daily_index\<close> returns a table, applying it
  to that table with the same aggregate columns returns the same table; and it does return
  one for every non-empty table with distinct column names when the aggregate columns
  name value columns of the table without repetition.
\<close>

theorem complete_daily_index_idempotent:
  fixes df :: "('i, 'v::zero) frame"
  shows "(complete_daily_index df agg_cols = Inr out \<longrightarrow> complete_daily_index out agg_cols = Inr out)
   \<and> (rows df \<noteq> [] \<and> distinct (''DATE'' # ''id'' # columns df)
        \<and> set agg_cols \<subseteq> set (columns df) \<and> distinct agg_cols \<longrightarrow>
        (\<exists>out'. complete_daily_index df agg_cols = Inr out'
               \<and> complete_daily_index out' agg_cols = Inr out'))"
proof -
  have a: "complete_daily_index df agg_cols = Inr out \<longrightarrow> complete_daily_index out agg_cols = Inr out"
    by (auto intro: complete_daily_index_idem)
  have b: "\<exists>out'. complete_daily_index df agg_cols = Inr out'
               \<and> complete_daily_index out' agg_cols = Inr out'"
    if "rows df \<noteq> []" "set agg_cols \<subseteq> set (columns df)" "distinct agg_cols"
  proof -
    have "set agg_cols \<subseteq> set (''DATE'' # ''id'' # columns df)" using that(2) by auto
    from complete_daily_index_eq[OF that(1) this that(3)] complete_daily_index_idem
    show ?thesis by blast
  qed
  from a b show ?thesis by blast
qed

text \<open>An instance: the table with the gap; its output has three rows and is a fixed point.\<close>

theorem complete_daily_index_idempotent_witness:
  "\<exists>out. complete_daily_index gap_frame [''x''] = Inr out
      \<and> complete_daily_index out [''x''] = Inr out \<and> length (rows out) = 3"
proof -
  have 1: "rows gap_frame \<noteq> [] \<and> distinct (''DATE'' # ''id'' # columns gap_frame)
      \<and> set [''x''] \<subseteq> set (columns gap_frame) \<and> distinct [''x'']"
    by (simp add: gap_frame_def)
  from complete_daily_index_idempotent [of gap_frame "[''x'']"] 1
  obtain out where o: "complete_daily_index gap_frame [''x''] = Inr out"
      "complete_daily_index out [''x''] = Inr out" by blast
  have "complete_daily_index gap_frame [''x''] =
      Inr \<lparr> columns = [''x'', ''note''],
            rows = [\<lparr> row_DATE = 1, row_id = 7, cells = [Some 5, Some 1] \<rparr>,
                    \<lparr> row_DATE = 2, row_id = 7, cells = [Some 0, None] \<rparr>,
                    \<lparr> row_DATE = 3, row_id = 7, cells = [Some 0, Some 2] \<rparr>] \<rparr>"
    by (simp add: gap_frame_def complete_daily_index_def merge_left_def fillna_def Let_def upto.simps)
  with o have "length (rows out) = 3" by auto
  with o show ?thesis by blast
qed

section \<open>Properties of the segmentation helper\<close>

subsection \<open>The constructor's defaults\<close>








end
